theory Spec2Isabelle
  imports Complex_Main "HOL-Library.AList" "HOL-Library.Multiset"
begin

section \<open>Data model (searchindex/index.go, nlp/rewriter.go)\<close>

text \<open>
  Conventions of the embedding.
  \<^item> Go's \<open>uint\<close> fields are \<open>nat\<close> and its \<open>int\<close> fields and arguments are \<open>int\<close>:
    the code only copies and compares them, it never does arithmetic on them.
  \<^item> In \<open>Search\<close> and in the handler a \<open>float64\<close> score is the real number it denotes:
    the theorems about them use only equalities between scores and their order. The
    cosine is given a second time on IEEE-754 values, with the rounding of every
    \<open>float32\<close> and \<open>float64\<close> operation, infinities, NaN and signed zeros; the range of
    the semantic sub-score is settled on that definition.
  \<^item> A Go \<open>string\<close> is a \<open>string\<close> (list of bytes); a nil slice and an empty slice are
    both the empty list.
\<close>

record Product =
  ID :: nat
  SellerID :: nat
  CategoryID :: nat
  Title :: string
  Description :: string
  Brand :: string
  Status :: int
  Score :: int

record productDoc =
  P :: Product
  Embedding :: "real list"
  SearchText :: string

text \<open>
  \<open>SearchResult\<close>: the fields \<open>Product\<close>, \<open>Score\<close>, \<open>Why.Semantic\<close> and \<open>Why.Fuzzy\<close>
  of the source; the first two are prefixed because \<open>Product\<close> has a \<open>Score\<close> of its own.
\<close>

record SearchResult =
  rProduct :: Product
  rScore :: real
  WhySemantic :: real
  WhyFuzzy :: real

record Index =
  semanticWeight :: real
  fuzzyWeight :: real
  docs :: "productDoc list"

record Rewrite =
  Primary :: string
  Alternatives :: "string list"

text \<open>
  Errors. The embedding provider's own error is an opaque message; \<open>Rebuild\<close> wraps it
  with the id of the product (\<open>"embed product %d: %w"\<close>), \<open>Search\<close> wraps it as
  \<open>"embed query: %w"\<close>.
\<close>

datatype error = EmbedProduct nat string | EmbedQuery string

section \<open>Strings (package strings, ASCII fragment)\<close>

text \<open>
  The white space of \<open>strings.TrimSpace\<close> on ASCII input: tab, line feed, vertical tab,
  form feed, carriage return and space. (On non-ASCII input Go also strips Unicode white
  space; the model covers strings without such code points.)
\<close>

definition isSpace :: "char \<Rightarrow> bool" where
  "isSpace c \<longleftrightarrow> c \<in> {CHR 0x09, CHR 0x0A, CHR 0x0B, CHR 0x0C, CHR 0x0D, CHR '' ''}"

definition TrimSpace :: "string \<Rightarrow> string" where
  "TrimSpace s = rev (dropWhile isSpace (rev (dropWhile isSpace s)))"

definition toLowerChar :: "char \<Rightarrow> char" where
  "toLowerChar c =
     (let n = (of_char c :: nat) in if 65 \<le> n \<and> n \<le> 90 then char_of (n + 32) else c)"

definition ToLower :: "string \<Rightarrow> string" where
  "ToLower s = map toLowerChar s"

fun Join :: "string list \<Rightarrow> string \<Rightarrow> string" where
  "Join [] sep = []"
| "Join [x] sep = x"
| "Join (x # y # ys) sep = x @ sep @ Join (y # ys) sep"

section \<open>Scoring helpers (searchindex/index.go)\<close>

text \<open>
  \<open>cosine\<close>, with the values read as reals, as \<open>Search\<close> below uses it: the loop
  \<open>for i := range a\<close> accumulates \<open>dot\<close>, \<open>na\<close> and \<open>nb\<close>; it runs only when both slices
  have the same length, so it is a left fold over the paired elements. The function on
  float values, with rounding, is \<open>cosine_ieee\<close> in the next section.
\<close>

fun cosine_loop :: "real list \<Rightarrow> real list \<Rightarrow> real \<times> real \<times> real \<Rightarrow> real \<times> real \<times> real" where
  "cosine_loop (x # xs) (y # ys) (dot, na, nb) =
     cosine_loop xs ys (dot + x * y, na + x * x, nb + y * y)"
| "cosine_loop _ _ acc = acc"

definition cosine :: "real list \<Rightarrow> real list \<Rightarrow> real" where
  "cosine a b =
     (if length a = 0 \<or> length b = 0 \<or> length a \<noteq> length b then 0
      else (case cosine_loop a b (0, 0, 0) of (dot, na, nb) \<Rightarrow>
              (let den = sqrt na * sqrt nb in if den = 0 then 0 else dot / den)))"

definition max3 :: "real \<Rightarrow> real \<Rightarrow> real \<Rightarrow> real" where
  "max3 a b c = max a (max b c)"

text \<open>
  \<open>jaroWinkler\<close> normalises both strings and calls the third-party
  \<open>smetrics.JaroWinkler(a, b, 0.7, 4)\<close>, which is the parameter \<open>jw\<close>.
\<close>

definition jaroWinkler :: "(string \<Rightarrow> string \<Rightarrow> real) \<Rightarrow> string \<Rightarrow> string \<Rightarrow> real" where
  "jaroWinkler jw a b = jw (ToLower (TrimSpace a)) (ToLower (TrimSpace b))"

section \<open>The cosine on float32 and float64 values\<close>




















section \<open>The embedding provider\<close>

text \<open>
  \<open>ix.em.EmbedContent\<close> is an external service. A provider is modelled by the answer it
  gives to a request, which may depend on every request made before it (so the provider
  may have state, and may fail on one call and succeed on the next); \<open>Inl\<close> is a failure
  with the provider's message, \<open>Inr\<close> carries \<open>resp.Embedding.Values\<close>. The list of the
  texts requested so far is threaded through every operation, so that the model says
  which requests an operation makes.
\<close>

type_synonym EmbeddingModel = "string list \<Rightarrow> string \<Rightarrow> string + real list"

definition EmbedContent ::
  "EmbeddingModel \<Rightarrow> string list \<Rightarrow> string \<Rightarrow> (string + real list) \<times> string list" where
  "EmbedContent em reqs t = (em reqs t, reqs @ [t])"

section \<open>Index.Rebuild\<close>

text \<open>
  The loop of \<open>Rebuild\<close> over \<open>products\<close>, with the local slice \<open>docs\<close> as accumulator.
  It returns at the first failed embedding request; the error carries \<open>p.ID\<close>.
\<close>

fun Rebuild_loop ::
  "EmbeddingModel \<Rightarrow> Product list \<Rightarrow> productDoc list \<Rightarrow> string list
     \<Rightarrow> (error + productDoc list) \<times> string list" where
  "Rebuild_loop em [] ds reqs = (Inr ds, reqs)"
| "Rebuild_loop em (p # ps) ds reqs =
     (let joined = TrimSpace (Join [Title p, Brand p, Description p] '' '') in
      if joined = [] then Rebuild_loop em ps ds reqs
      else (case EmbedContent em reqs joined of
              (Inl err, reqs') \<Rightarrow> (Inl (EmbedProduct (ID p) err), reqs')
            | (Inr vals, reqs') \<Rightarrow>
                Rebuild_loop em ps
                  (ds @ [\<lparr>P = p, Embedding = vals, SearchText = joined\<rparr>]) reqs'))"

text \<open>
  \<open>Rebuild\<close> returns the error (\<open>None\<close> is Go's \<open>nil\<close>), the index after the call and the
  request log after the call. The assignment \<open>ix.docs = docs\<close> is reached only when the
  loop has finished. (The lock around the assignment has no sequential effect.)
\<close>

definition Rebuild ::
  "EmbeddingModel \<Rightarrow> Index \<Rightarrow> string list \<Rightarrow> Product list
     \<Rightarrow> error option \<times> Index \<times> string list" where
  "Rebuild em ix reqs products =
     (case Rebuild_loop em products [] reqs of
        (Inl e, reqs') \<Rightarrow> (Some e, ix, reqs')
      | (Inr ds, reqs') \<Rightarrow> (None, ix\<lparr>docs := ds\<rparr>, reqs'))"

section \<open>Index.Search\<close>

text \<open>
  \<open>sort.Slice(s, less)\<close>. Go does not promise an order among elements that \<open>less\<close> does
  not separate; the model is the insertion sort, one of the orders Go may produce.
  The theorems below use only that the result is a permutation ordered by \<open>less\<close>.
\<close>

fun insert_Slice :: "('a \<Rightarrow> 'a \<Rightarrow> bool) \<Rightarrow> 'a \<Rightarrow> 'a list \<Rightarrow> 'a list" where
  "insert_Slice lt x [] = [x]"
| "insert_Slice lt x (y # ys) =
     (if lt y x then y # insert_Slice lt x ys else x # y # ys)"

definition sort_Slice :: "('a \<Rightarrow> 'a \<Rightarrow> bool) \<Rightarrow> 'a list \<Rightarrow> 'a list" where
  "sort_Slice lt xs = foldr (insert_Slice lt) xs []"

text \<open>The truncation \<open>if topK > 0 && topK < len(s) { s = s[:topK] }\<close>, used twice.\<close>

definition truncate_topK :: "int \<Rightarrow> 'a list \<Rightarrow> 'a list" where
  "truncate_topK topK s =
     (if topK > 0 \<and> topK < int (length s) then take (nat topK) s else s)"

text \<open>The scoring loop of \<open>Search\<close> over \<open>ix.docs\<close>, appending to \<open>results\<close>.\<close>

fun Search_loop ::
  "(string \<Rightarrow> string \<Rightarrow> real) \<Rightarrow> Index \<Rightarrow> string \<Rightarrow> real list \<Rightarrow> productDoc list
     \<Rightarrow> SearchResult list \<Rightarrow> SearchResult list" where
  "Search_loop jw ix q qVec [] results = results"
| "Search_loop jw ix q qVec (d # ds) results =
     (let sem = cosine qVec (Embedding d);
          fuz = max3 (jaroWinkler jw q (Title (P d)))
                     (jaroWinkler jw q (Brand (P d)))
                     (jaroWinkler jw q (Description (P d)));
          score = semanticWeight ix * sem + fuzzyWeight ix * fuz;
          r = \<lparr>rProduct = P d, rScore = score, WhySemantic = sem, WhyFuzzy = fuz\<rparr>
      in Search_loop jw ix q qVec ds (results @ [r]))"

text \<open>
  \<open>Search\<close> returns its result (\<open>Inl\<close> the error, with Go's nil slice), the index after
  the call and the request log after the call.
\<close>

definition Search ::
  "EmbeddingModel \<Rightarrow> (string \<Rightarrow> string \<Rightarrow> real) \<Rightarrow> Index \<Rightarrow> string list \<Rightarrow> string \<Rightarrow> int
     \<Rightarrow> (error + SearchResult list) \<times> Index \<times> string list" where
  "Search em jw ix reqs query topK =
     (let q = TrimSpace query in
      if q = [] then (Inr [], ix, reqs)
      else (case EmbedContent em reqs q of
              (Inl err, reqs') \<Rightarrow> (Inl (EmbedQuery err), ix, reqs')
            | (Inr qVec, reqs') \<Rightarrow>
                (let results = Search_loop jw ix q qVec (docs ix) [];
                     results = sort_Slice (\<lambda>a b. rScore a > rScore b) results;
                     results = truncate_topK topK results
                 in (Inr results, ix, reqs'))))"

section \<open>The /search handler (cmd/server/main.go)\<close>

text \<open>
  The map \<open>best\<close> from product id to result is an association list with distinct keys;
  \<open>best[id] = it\<close> is \<open>AList.update\<close>. Ranging over a Go map visits the entries in an
  unspecified order; the model visits them in the order the keys were first stored.
\<close>

fun merge ::
  "SearchResult list \<Rightarrow> (nat \<times> SearchResult) list \<Rightarrow> (nat \<times> SearchResult) list" where
  "merge [] best = best"
| "merge (it # list) best =
     (let id = ID (rProduct it) in
      merge list
        (case map_of best id of
           None \<Rightarrow> AList.update id it best
         | Some prev \<Rightarrow> if rScore it > rScore prev then AList.update id it best else best))"

text \<open>
  One variant: \<open>res, err := ix.Search(ctx, v, topK); if err == nil { merge(res) }\<close>.
  The state is \<open>best\<close>, the index and the request log.
\<close>

definition search_variant ::
  "EmbeddingModel \<Rightarrow> (string \<Rightarrow> string \<Rightarrow> real) \<Rightarrow> int
     \<Rightarrow> (nat \<times> SearchResult) list \<times> Index \<times> string list \<Rightarrow> string
     \<Rightarrow> (nat \<times> SearchResult) list \<times> Index \<times> string list" where
  "search_variant em jw topK st v =
     (case st of (best, ix, reqs) \<Rightarrow>
        (case Search em jw ix reqs v topK of
           (Inl err, ix', reqs') \<Rightarrow> (best, ix', reqs')
         | (Inr res, ix', reqs') \<Rightarrow> (merge res best, ix', reqs')))"

text \<open>Step 3 of the handler: flatten \<open>best\<close>, sort, truncate.\<close>

definition flatten_sort :: "int \<Rightarrow> (nat \<times> SearchResult) list \<Rightarrow> SearchResult list" where
  "flatten_sort topK best =
     truncate_topK topK (sort_Slice (\<lambda>a b. rScore a > rScore b) (map snd best))"

text \<open>
  The handler. \<open>rewriter\<close> is the outcome of \<open>nlp.RewriteQuery\<close> on the raw query (an
  external language model decides it); on failure the handler falls back to
  \<open>Rewrite{Primary: q}\<close>. It returns the \<open>Results\<close> and \<open>Normalized\<close> fields of the
  response, the index and the request log.
\<close>

definition search_handler ::
  "(string \<Rightarrow> string + Rewrite) \<Rightarrow> EmbeddingModel \<Rightarrow> (string \<Rightarrow> string \<Rightarrow> real) \<Rightarrow> Index
     \<Rightarrow> string list \<Rightarrow> string \<Rightarrow> int \<Rightarrow> SearchResult list \<times> Rewrite \<times> Index \<times> string list" where
  "search_handler rewriter em jw ix reqs q topK =
     (let rw = (case rewriter q of
                  Inl err \<Rightarrow> \<lparr>Primary = q, Alternatives = []\<rparr>
                | Inr rw \<Rightarrow> rw);
          st = search_variant em jw topK ([], ix, reqs) (Primary rw);
          st = foldl (search_variant em jw topK) st (Alternatives rw)
      in (case st of (best, ix', reqs') \<Rightarrow> (flatten_sort topK best, rw, ix', reqs')))"

section \<open>Notions used to state the properties\<close>





text \<open>The search text \<open>Rebuild\<close> derives from a product (its local \<open>joined\<close>).\<close>

definition joined_text :: "Product \<Rightarrow> string" where
  "joined_text p = TrimSpace (Join [Title p, Brand p, Description p] '' '')"

text \<open>The products that survive the empty-text filter, and their search texts.\<close>

definition surviving :: "Product list \<Rightarrow> Product list" where
  "surviving ps = filter (\<lambda>p. joined_text p \<noteq> []) ps"

text \<open>
  \<open>all_succeed em reqs ts\<close>: the provider answers every request of \<open>ts\<close>, made in this
  order after the requests \<open>reqs\<close>, with an embedding.
\<close>

fun all_succeed :: "EmbeddingModel \<Rightarrow> string list \<Rightarrow> string list \<Rightarrow> bool" where
  "all_succeed em reqs [] = True"
| "all_succeed em reqs (t # ts) =
     (case em reqs t of Inl err \<Rightarrow> False | Inr vals \<Rightarrow> all_succeed em (reqs @ [t]) ts)"

text \<open>
  The specification's Scored Result of a document: the two sub-scores and their
  weighted sum, the fuzzy sub-score being the maximum over the three fields.
\<close>

definition spec_fuzzy :: "(string \<Rightarrow> string \<Rightarrow> real) \<Rightarrow> string \<Rightarrow> Product \<Rightarrow> real" where
  "spec_fuzzy jw q p =
     Max {jaroWinkler jw q (Title p), jaroWinkler jw q (Brand p), jaroWinkler jw q (Description p)}"

definition spec_scored ::
  "(string \<Rightarrow> string \<Rightarrow> real) \<Rightarrow> Index \<Rightarrow> string \<Rightarrow> real list \<Rightarrow> productDoc \<Rightarrow> SearchResult" where
  "spec_scored jw ix q qVec d =
     \<lparr>rProduct = P d,
      rScore = semanticWeight ix * cosine qVec (Embedding d) + fuzzyWeight ix * spec_fuzzy jw q (P d),
      WhySemantic = cosine qVec (Embedding d),
      WhyFuzzy = spec_fuzzy jw q (P d)\<rparr>"


text \<open>Merging a sequence of result lists into an empty \<open>best\<close>, in order.\<close>

definition merge_all :: "SearchResult list list \<Rightarrow> (nat \<times> SearchResult) list" where
  "merge_all ls = foldl (\<lambda>best l. merge l best) [] ls"

text \<open>
  The outcomes of searching the variants one after the other, each search starting from
  the request log the previous one left.
\<close>

fun variant_outcomes ::
  "EmbeddingModel \<Rightarrow> (string \<Rightarrow> string \<Rightarrow> real) \<Rightarrow> Index \<Rightarrow> int \<Rightarrow> string list \<Rightarrow> string list
     \<Rightarrow> (error + SearchResult list) list" where
  "variant_outcomes em jw ix topK reqs [] = []"
| "variant_outcomes em jw ix topK reqs (v # vs) =
     (case Search em jw ix reqs v topK of
        (res, ix', reqs') \<Rightarrow> res # variant_outcomes em jw ix' topK reqs' vs)"

fun successes :: "(error + SearchResult list) list \<Rightarrow> SearchResult list list" where
  "successes [] = []"
| "successes (Inl e # rs) = successes rs"
| "successes (Inr l # rs) = l # successes rs"

text \<open>
  The body of the loop of \<open>merge\<close>, and the invariant of \<open>best\<close> it maintains with
  respect to the set \<open>S\<close> of results merged so far: the keys are distinct and are the
  ids of \<open>S\<close>, and each key holds a result of \<open>S\<close> with that id whose score no result
  of \<open>S\<close> with that id exceeds.
\<close>

definition merge_step :: "SearchResult \<Rightarrow> (nat \<times> SearchResult) list \<Rightarrow> (nat \<times> SearchResult) list" where
  "merge_step it best =
     (case map_of best (ID (rProduct it)) of
        None \<Rightarrow> AList.update (ID (rProduct it)) it best
      | Some prev \<Rightarrow>
          if rScore it > rScore prev then AList.update (ID (rProduct it)) it best else best)"

definition best_inv :: "(nat \<times> SearchResult) list \<Rightarrow> SearchResult set \<Rightarrow> bool" where
  "best_inv best S \<longleftrightarrow>
     distinct (map fst best) \<and>
     (\<forall>k. map_of best k = None \<longleftrightarrow> k \<notin> (\<lambda>x. ID (rProduct x)) ` S) \<and>
     (\<forall>k v. map_of best k = Some v \<longrightarrow>
        ID (rProduct v) = k \<and> v \<in> S \<and>
        (\<forall>x \<in> S. ID (rProduct x) = k \<longrightarrow> rScore x \<le> rScore v))"

section \<open>Example data\<close>

text \<open>
  A provider that fails on the text \<open>bad\<close> and answers everything else with \<open>[1, 0]\<close>,
  a string scorer by equality, a rewriter that fails on \<open>x\<close>, products that have only
  a title, three indexes and two ways to write a result.
\<close>

definition ex_em :: EmbeddingModel where
  "ex_em reqs t = (if t = ''bad'' then Inl ''down'' else Inr [1, 0])"

definition ex_jw :: "string \<Rightarrow> string \<Rightarrow> real" where
  "ex_jw a b = (if a = b then 1 else 0)"

definition ex_product :: "nat \<Rightarrow> string \<Rightarrow> Product" where
  "ex_product i t =
     \<lparr>ID = i, SellerID = 0, CategoryID = 0, Title = t, Description = [], Brand = [],
      Status = 0, Score = 0\<rparr>"

definition ex_index :: Index where
  "ex_index =
     \<lparr>semanticWeight = 7 / 10, fuzzyWeight = 3 / 10,
      docs = [\<lparr>P = ex_product 1 ''tv'', Embedding = [1, 0], SearchText = ''tv''\<rparr>]\<rparr>"

definition ex_rebuilt :: Index where
  "ex_rebuilt =
     \<lparr>semanticWeight = 7 / 10, fuzzyWeight = 3 / 10,
      docs = [\<lparr>P = ex_product 2 ''ok'', Embedding = [1, 0], SearchText = ''ok''\<rparr>]\<rparr>"

definition ex_index2 :: Index where
  "ex_index2 =
     \<lparr>semanticWeight = 7 / 10, fuzzyWeight = 3 / 10,
      docs = [\<lparr>P = ex_product 1 ''tv'', Embedding = [1, 0], SearchText = ''tv''\<rparr>,
              \<lparr>P = ex_product 2 ''ok'', Embedding = [0, 1], SearchText = ''ok''\<rparr>]\<rparr>"

definition ex_rewriter :: "string \<Rightarrow> string + Rewrite" where
  "ex_rewriter q =
     (if q = ''x'' then Inl ''down'' else Inr \<lparr>Primary = ''bad'', Alternatives = [''ok'']\<rparr>)"


definition ex_hit :: "nat \<Rightarrow> string \<Rightarrow> real \<Rightarrow> real \<Rightarrow> real \<Rightarrow> SearchResult" where
  "ex_hit i t s sem fuz = \<lparr>rProduct = ex_product i t, rScore = s, WhySemantic = sem, WhyFuzzy = fuz\<rparr>"

section \<open>Lemmas on rounding and the cosine\<close>






section \<open>Lemmas on sorting and truncation\<close>

lemma mset_insert_Slice: "mset (insert_Slice lt x ys) = add_mset x (mset ys)"
  by (induction ys) simp_all

lemma mset_sort_Slice: "mset (sort_Slice lt xs) = mset xs"
  by (induction xs) (simp_all add: sort_Slice_def mset_insert_Slice)

lemma set_sort_Slice: "set (sort_Slice lt xs) = set xs"
  using mset_sort_Slice [of lt xs] by (metis set_mset_mset)

lemma length_sort_Slice: "length (sort_Slice lt xs) = length xs"
  using mset_sort_Slice [of lt xs] by (metis size_mset)






lemma truncate_topK_take: "\<exists>n. truncate_topK topK s = take n s"
  by (metis truncate_topK_def take_all order_refl)



lemma set_truncate_topK: "set (truncate_topK topK s) \<subseteq> set s"
  by (auto simp: truncate_topK_def dest: in_set_takeD)

lemma mset_truncate_topK: "mset (truncate_topK topK s) \<subseteq># mset s"
proof -
  obtain n where "truncate_topK topK s = take n s" using truncate_topK_take by blast
  moreover have "mset (take n s) \<subseteq># mset s"
    by (metis append_take_drop_id mset_append mset_subset_eq_add_left)
  ultimately show ?thesis by simp
qed



section \<open>Lemmas on Search\<close>

lemma max3_Max: "max3 a b c = Max {a, b, c}"
  by (simp add: max3_def)

lemma Search_loop_map:
  "Search_loop jw ix q qVec ds results = results @ map (spec_scored jw ix q qVec) ds"
  by (induction ds arbitrary: results)
     (simp_all add: spec_scored_def spec_fuzzy_def max3_Max Let_def)

lemma Search_cases:
  "(TrimSpace query = [] \<and> Search em jw ix reqs query topK = (Inr [], ix, reqs)) \<or>
   (TrimSpace query \<noteq> [] \<and> (\<exists>err. em reqs (TrimSpace query) = Inl err \<and>
      Search em jw ix reqs query topK = (Inl (EmbedQuery err), ix, reqs @ [TrimSpace query]))) \<or>
   (TrimSpace query \<noteq> [] \<and> (\<exists>qVec. em reqs (TrimSpace query) = Inr qVec \<and>
      Search em jw ix reqs query topK =
        (Inr (truncate_topK topK (sort_Slice (\<lambda>a b. rScore a > rScore b)
                (map (spec_scored jw ix (TrimSpace query) qVec) (docs ix)))),
         ix, reqs @ [TrimSpace query])))"
  by (cases "em reqs (TrimSpace query)")
     (simp_all add: Search_def EmbedContent_def Search_loop_map Let_def)

lemma Search_products:
  assumes "Search em jw ix reqs query topK = (Inr rs, ix', reqs')"
  shows "rProduct ` set rs \<subseteq> P ` set (docs ix)"
proof -
  from Search_cases [of query em jw ix reqs topK] assms
  consider "rs = []"
    | qVec where "rs = truncate_topK topK (sort_Slice (\<lambda>a b. rScore a > rScore b)
                (map (spec_scored jw ix (TrimSpace query) qVec) (docs ix)))"
    by auto
  then show ?thesis
  proof cases
    case 1
    then show ?thesis by simp
  next
    case 2
    have "set rs \<subseteq> spec_scored jw ix (TrimSpace query) qVec ` set (docs ix)"
      using set_truncate_topK [of topK "sort_Slice (\<lambda>a b. rScore a > rScore b)
                (map (spec_scored jw ix (TrimSpace query) qVec) (docs ix))"]
      by (simp add: 2 set_sort_Slice)
    then show ?thesis by (auto simp: spec_scored_def)
  qed
qed

lemma Search_log:
  "snd (snd (Search em jw ix reqs query topK)) =
     reqs @ (if TrimSpace query = [] then [] else [TrimSpace query])"
  using Search_cases [of query em jw ix reqs topK] by auto

lemma Search_ix: "fst (snd (Search em jw ix reqs query topK)) = ix"
  using Search_cases [of query em jw ix reqs topK] by auto

section \<open>Lemmas on Rebuild\<close>

lemma surviving_Cons:
  "surviving (p # ps) = (if joined_text p = [] then surviving ps else p # surviving ps)"
  by (simp add: surviving_def)

lemma surviving_length_less:
  "p \<in> set ps \<Longrightarrow> joined_text p = [] \<Longrightarrow> length (surviving ps) < length ps"
  unfolding surviving_def by (rule length_filter_less) simp_all

lemma Rebuild_loop_success:
  "Rebuild_loop em ps ds reqs = (Inr ds', reqs') \<Longrightarrow>
     reqs' = reqs @ map joined_text (surviving ps) \<and>
     all_succeed em reqs (map joined_text (surviving ps)) \<and>
     (\<exists>new. ds' = ds @ new \<and> map P new = surviving ps \<and>
            map SearchText new = map joined_text (surviving ps))"
proof (induction ps arbitrary: ds reqs)
  case Nil
  then show ?case by (simp add: surviving_def)
next
  case (Cons p ps)
  show ?case
  proof (cases "joined_text p = []")
    case True
    with Cons.prems have "Rebuild_loop em ps ds reqs = (Inr ds', reqs')"
      by (simp add: joined_text_def Let_def)
    from Cons.IH [OF this] True show ?thesis by (simp add: surviving_Cons)
  next
    case False
    show ?thesis
    proof (cases "em reqs (joined_text p)")
      case (Inl err)
      with False Cons.prems show ?thesis
        by (simp add: joined_text_def EmbedContent_def Let_def)
    next
      case (Inr vals)
      let ?d = "\<lparr>P = p, Embedding = vals, SearchText = joined_text p\<rparr>"
      from Inr False Cons.prems
      have "Rebuild_loop em ps (ds @ [?d]) (reqs @ [joined_text p]) = (Inr ds', reqs')"
        by (simp add: joined_text_def EmbedContent_def Let_def)
      from Cons.IH [OF this] obtain new where
        r: "reqs' = (reqs @ [joined_text p]) @ map joined_text (surviving ps)" and
        a: "all_succeed em (reqs @ [joined_text p]) (map joined_text (surviving ps))" and
        n: "ds' = (ds @ [?d]) @ new" "map P new = surviving ps"
           "map SearchText new = map joined_text (surviving ps)"
        by blast
      have "ds' = ds @ (?d # new)" using n(1) by simp
      moreover have "map P (?d # new) = surviving (p # ps)"
        using n(2) False by (simp add: surviving_Cons)
      moreover have "map SearchText (?d # new) = map joined_text (surviving (p # ps))"
        using n(3) False by (simp add: surviving_Cons)
      ultimately show ?thesis
        using r a Inr False by (auto simp add: surviving_Cons)
    qed
  qed
qed

lemma Rebuild_loop_failure:
  "Rebuild_loop em ps ds reqs = (Inl e, reqs') \<Longrightarrow>
     \<exists>pre p post msg. ps = pre @ p # post \<and> e = EmbedProduct (ID p) msg \<and>
        joined_text p \<noteq> [] \<and>
        reqs' = reqs @ map joined_text (surviving pre) @ [joined_text p] \<and>
        all_succeed em reqs (map joined_text (surviving pre)) \<and>
        em (reqs @ map joined_text (surviving pre)) (joined_text p) = Inl msg"
proof (induction ps arbitrary: ds reqs)
  case Nil
  then show ?case by simp
next
  case (Cons p ps)
  show ?case
  proof (cases "joined_text p = []")
    case True
    with Cons.prems have "Rebuild_loop em ps ds reqs = (Inl e, reqs')"
      by (simp add: joined_text_def Let_def)
    from Cons.IH [OF this] obtain pre q post msg where
      h: "ps = pre @ q # post" "e = EmbedProduct (ID q) msg" "joined_text q \<noteq> []"
         "reqs' = reqs @ map joined_text (surviving pre) @ [joined_text q]"
         "all_succeed em reqs (map joined_text (surviving pre))"
         "em (reqs @ map joined_text (surviving pre)) (joined_text q) = Inl msg"
      by blast
    have "p # ps = (p # pre) @ q # post" using h(1) by simp
    moreover have "surviving (p # pre) = surviving pre" using True by (simp add: surviving_Cons)
    ultimately show ?thesis using h by metis
  next
    case False
    show ?thesis
    proof (cases "em reqs (joined_text p)")
      case (Inl err)
      with False Cons.prems have "e = EmbedProduct (ID p) err" "reqs' = reqs @ [joined_text p]"
        by (simp_all add: joined_text_def EmbedContent_def Let_def)
      moreover have "p # ps = [] @ p # ps" by simp
      moreover have "surviving [] = []" by (simp add: surviving_def)
      ultimately show ?thesis using False Inl
        by (intro exI [of _ "[]"] exI [of _ p] exI [of _ ps] exI [of _ err]) simp
    next
      case (Inr vals)
      let ?d = "\<lparr>P = p, Embedding = vals, SearchText = joined_text p\<rparr>"
      from Inr False Cons.prems
      have "Rebuild_loop em ps (ds @ [?d]) (reqs @ [joined_text p]) = (Inl e, reqs')"
        by (simp add: joined_text_def EmbedContent_def Let_def)
      from Cons.IH [OF this] obtain pre q post msg where
        h: "ps = pre @ q # post" "e = EmbedProduct (ID q) msg" "joined_text q \<noteq> []"
           "reqs' = (reqs @ [joined_text p]) @ map joined_text (surviving pre) @ [joined_text q]"
           "all_succeed em (reqs @ [joined_text p]) (map joined_text (surviving pre))"
           "em ((reqs @ [joined_text p]) @ map joined_text (surviving pre)) (joined_text q) = Inl msg"
        by blast
      have s: "surviving (p # pre) = p # surviving pre" using False by (simp add: surviving_Cons)
      have "p # ps = (p # pre) @ q # post" using h(1) by simp
      moreover have "reqs' = reqs @ map joined_text (surviving (p # pre)) @ [joined_text q]"
        using h(4) s by simp
      moreover have "all_succeed em reqs (map joined_text (surviving (p # pre)))"
        using h(5) s Inr by simp
      moreover have "em (reqs @ map joined_text (surviving (p # pre))) (joined_text q) = Inl msg"
        using h(6) s by simp
      ultimately show ?thesis using h(2,3) by blast
    qed
  qed
qed

lemma Rebuild_cases:
  "(\<exists>ds. Rebuild_loop em products [] reqs = (Inr ds, reqs @ map joined_text (surviving products)) \<and>
      Rebuild em ix reqs products = (None, ix\<lparr>docs := ds\<rparr>, reqs @ map joined_text (surviving products))) \<or>
   (\<exists>e reqs'. Rebuild_loop em products [] reqs = (Inl e, reqs') \<and>
      Rebuild em ix reqs products = (Some e, ix, reqs'))"
proof (cases "Rebuild_loop em products [] reqs")
  case (Pair res reqs')
  show ?thesis
  proof (cases res)
    case (Inl e)
    with Pair show ?thesis by (simp add: Rebuild_def)
  next
    case (Inr ds)
    with Pair Rebuild_loop_success [of em products "[]" reqs ds reqs']
    show ?thesis by (simp add: Rebuild_def)
  qed
qed

lemma Rebuild_requests:
  assumes "Rebuild em ix reqs products = (r, ix', reqs')"
  shows "\<exists>new. reqs' = reqs @ new \<and> [] \<notin> set new \<and> length new \<le> length (surviving products)"
proof -
  from Rebuild_cases [of em products reqs ix] show ?thesis
  proof (elim disjE exE conjE)
    fix ds
    assume "Rebuild em ix reqs products =
        (None, ix\<lparr>docs := ds\<rparr>, reqs @ map joined_text (surviving products))"
    with assms have "reqs' = reqs @ map joined_text (surviving products)" by simp
    moreover have "[] \<notin> set (map joined_text (surviving products))"
      by (auto simp: surviving_def)
    ultimately show ?thesis by auto
  next
    fix e reqs2
    assume l: "Rebuild_loop em products [] reqs = (Inl e, reqs2)"
      and R: "Rebuild em ix reqs products = (Some e, ix, reqs2)"
    from Rebuild_loop_failure [OF l] obtain pre p post where
      h: "products = pre @ p # post" "joined_text p \<noteq> []"
         "reqs2 = reqs @ map joined_text (surviving pre) @ [joined_text p]"
      by blast
    have "reqs' = reqs @ (map joined_text (surviving pre) @ [joined_text p])"
      using R assms h(3) by simp
    moreover have "[] \<notin> set (map joined_text (surviving pre) @ [joined_text p])"
      using h(2) by (auto simp: surviving_def)
    moreover have "length (map joined_text (surviving pre) @ [joined_text p]) \<le> length (surviving products)"
      using h(1,2) by (simp add: surviving_def)
    ultimately show ?thesis by blast
  qed
qed

lemma Rebuild_success:
  assumes "Rebuild em ix reqs products = (None, ix', reqs')"
  shows "map P (docs ix') = surviving products"
    and "map SearchText (docs ix') = map joined_text (surviving products)"
    and "reqs' = reqs @ map SearchText (docs ix')"
    and "semanticWeight ix' = semanticWeight ix" and "fuzzyWeight ix' = fuzzyWeight ix"
proof -
  from Rebuild_cases [of em products reqs ix] assms obtain ds where
    l: "Rebuild_loop em products [] reqs = (Inr ds, reqs @ map joined_text (surviving products))"
    and i: "ix' = ix\<lparr>docs := ds\<rparr>" and r: "reqs' = reqs @ map joined_text (surviving products)"
    by auto
  from Rebuild_loop_success [OF l] have
    d: "map P ds = surviving products" "map SearchText ds = map joined_text (surviving products)"
    by auto
  show "map P (docs ix') = surviving products" using d i by simp
  show "map SearchText (docs ix') = map joined_text (surviving products)" using d i by simp
  show "reqs' = reqs @ map SearchText (docs ix')" using d i r by simp
  show "semanticWeight ix' = semanticWeight ix" "fuzzyWeight ix' = fuzzyWeight ix"
    using i by simp_all
qed

section \<open>Lemmas on the merge\<close>

lemma merge_Cons: "merge (it # l) best = merge l (merge_step it best)"
  by (simp add: merge_step_def Let_def)

lemma best_inv_empty: "best_inv [] {}"
  by (simp add: best_inv_def)

lemma best_invD:
  assumes "best_inv best S" and "map_of best k = Some v"
  shows "ID (rProduct v) = k" and "v \<in> S"
    and "\<And>x. x \<in> S \<Longrightarrow> ID (rProduct x) = k \<Longrightarrow> rScore x \<le> rScore v"
  using assms unfolding best_inv_def by blast+

lemma best_inv_None:
  assumes "best_inv best S" and "map_of best k = None" and "x \<in> S"
  shows "ID (rProduct x) \<noteq> k"
  using assms unfolding best_inv_def by blast

lemma best_inv_dom:
  assumes "best_inv best S"
  shows "(map_of best k = None) = (k \<notin> (\<lambda>x. ID (rProduct x)) ` S)"
  using assms unfolding best_inv_def by blast

lemma best_inv_distinct: "best_inv best S \<Longrightarrow> distinct (map fst best)"
  unfolding best_inv_def by blast

lemma best_inv_update:
  assumes inv: "best_inv best S"
    and dom: "\<And>x. x \<in> S \<Longrightarrow> ID (rProduct x) = ID (rProduct it) \<Longrightarrow> rScore x \<le> rScore it"
  shows "best_inv (AList.update (ID (rProduct it)) it best) (insert it S)"
  unfolding best_inv_def
proof (intro conjI)
  show "distinct (map fst (AList.update (ID (rProduct it)) it best))"
    using best_inv_distinct [OF inv] by (simp add: distinct_update)
next
  show "\<forall>k. (map_of (AList.update (ID (rProduct it)) it best) k = None) =
        (k \<notin> (\<lambda>x. ID (rProduct x)) ` insert it S)"
    using best_inv_dom [OF inv] by (simp add: update_conv')
next
  show "\<forall>k v. map_of (AList.update (ID (rProduct it)) it best) k = Some v \<longrightarrow>
        ID (rProduct v) = k \<and> v \<in> insert it S \<and>
        (\<forall>x\<in>insert it S. ID (rProduct x) = k \<longrightarrow> rScore x \<le> rScore v)"
  proof (intro allI impI)
  fix k v
  assume a: "map_of (AList.update (ID (rProduct it)) it best) k = Some v"
  show "ID (rProduct v) = k \<and> v \<in> insert it S \<and>
        (\<forall>x\<in>insert it S. ID (rProduct x) = k \<longrightarrow> rScore x \<le> rScore v)"
  proof (cases "k = ID (rProduct it)")
    case True
    with a have "v = it" by (simp add: update_conv')
    with True dom show ?thesis by auto
  next
    case False
    with a have b: "map_of best k = Some v" by (simp add: update_conv')
    from best_invD [OF inv b] False show ?thesis by auto
  qed
  qed
qed

lemma best_inv_keep:
  assumes inv: "best_inv best S"
    and prev: "map_of best (ID (rProduct it)) = Some prev"
    and le: "rScore it \<le> rScore prev"
  shows "best_inv best (insert it S)"
  unfolding best_inv_def
proof (intro conjI)
  show "distinct (map fst best)" by (rule best_inv_distinct [OF inv])
next
  show "\<forall>k. (map_of best k = None) = (k \<notin> (\<lambda>x. ID (rProduct x)) ` insert it S)"
  proof
    fix k
    show "(map_of best k = None) = (k \<notin> (\<lambda>x. ID (rProduct x)) ` insert it S)"
      using best_inv_dom [OF inv, of k] prev by (cases "k = ID (rProduct it)") simp_all
  qed
next
  show "\<forall>k v. map_of best k = Some v \<longrightarrow>
        ID (rProduct v) = k \<and> v \<in> insert it S \<and>
        (\<forall>x\<in>insert it S. ID (rProduct x) = k \<longrightarrow> rScore x \<le> rScore v)"
  proof (intro allI impI)
  fix k v
  assume b: "map_of best k = Some v"
  show "ID (rProduct v) = k \<and> v \<in> insert it S \<and>
        (\<forall>x\<in>insert it S. ID (rProduct x) = k \<longrightarrow> rScore x \<le> rScore v)"
  proof (cases "k = ID (rProduct it)")
    case True
    with b prev have "v = prev" by simp
    with best_invD [OF inv b] le True show ?thesis by auto
  next
    case False
    from best_invD [OF inv b] False show ?thesis by auto
  qed
  qed
qed

lemma best_inv_step:
  assumes "best_inv best S"
  shows "best_inv (merge_step it best) (insert it S)"
proof (cases "map_of best (ID (rProduct it))")
  case None
  have "best_inv (AList.update (ID (rProduct it)) it best) (insert it S)"
    using assms best_inv_None [OF assms None] by (intro best_inv_update) auto
  then show ?thesis using None by (simp add: merge_step_def)
next
  case (Some prev)
  show ?thesis
  proof (cases "rScore it > rScore prev")
    case True
    have "rScore x \<le> rScore it" if "x \<in> S" "ID (rProduct x) = ID (rProduct it)" for x
      using best_invD(3) [OF assms Some that] True by simp
    then have "best_inv (AList.update (ID (rProduct it)) it best) (insert it S)"
      using assms by (intro best_inv_update) auto
    then show ?thesis using Some True by (simp add: merge_step_def)
  next
    case False
    then have "best_inv best (insert it S)"
      using assms Some by (intro best_inv_keep [where prev = prev]) auto
    then show ?thesis using Some False by (simp add: merge_step_def)
  qed
qed

lemma best_inv_merge:
  "best_inv best S \<Longrightarrow> best_inv (merge l best) (S \<union> set l)"
proof (induction l arbitrary: best S)
  case Nil
  then show ?case by simp
next
  case (Cons it l)
  from best_inv_step [OF Cons.prems, of it] Cons.IH
  have "best_inv (merge l (merge_step it best)) (insert it S \<union> set l)" by blast
  then show ?case by (simp add: merge_Cons del: merge.simps)
qed

lemma best_inv_foldl:
  "best_inv best S \<Longrightarrow>
   best_inv (foldl (\<lambda>best l. merge l best) best ls) (S \<union> set (concat ls))"
proof (induction ls arbitrary: best S)
  case Nil
  then show ?case by simp
next
  case (Cons l ls)
  from best_inv_merge [OF Cons.prems, of l] Cons.IH
  have "best_inv (foldl (\<lambda>best l. merge l best) (merge l best) ls) ((S \<union> set l) \<union> set (concat ls))"
    by blast
  then show ?case by (simp add: Un_assoc)
qed

lemma best_inv_merge_all: "best_inv (merge_all ls) (set (concat ls))"
  using best_inv_foldl [OF best_inv_empty, of ls] by (simp add: merge_all_def)

lemma best_inv_in_set:
  assumes "best_inv best S" and "(k, v) \<in> set best"
  shows "ID (rProduct v) = k" and "v \<in> S"
    and "\<And>x. x \<in> S \<Longrightarrow> ID (rProduct x) = k \<Longrightarrow> rScore x \<le> rScore v"
proof -
  from assms have m: "map_of best k = Some v"
    by (simp add: best_inv_distinct)
  show "ID (rProduct v) = k" "v \<in> S"
    "\<And>x. x \<in> S \<Longrightarrow> ID (rProduct x) = k \<Longrightarrow> rScore x \<le> rScore v"
    using best_invD [OF assms(1) m] by blast+
qed

lemma best_inv_keys:
  assumes "best_inv best S"
  shows "map (\<lambda>r. ID (rProduct r)) (map snd best) = map fst best"
  using best_inv_in_set(1) [OF assms] by auto

lemma best_inv_key_set:
  assumes "best_inv best S"
  shows "(\<lambda>r. ID (rProduct r)) ` set (map snd best) = (\<lambda>r. ID (rProduct r)) ` S"
proof -
  have "set (map (\<lambda>r. ID (rProduct r)) (map snd best)) = fst ` set best"
    using best_inv_keys [OF assms] by (metis set_map)
  moreover have "fst ` set best = (\<lambda>r. ID (rProduct r)) ` S"
  proof (rule set_eqI)
    fix k
    have "k \<in> fst ` set best \<longleftrightarrow> map_of best k \<noteq> None"
      by (simp add: map_of_eq_None_iff)
    also have "\<dots> \<longleftrightarrow> k \<in> (\<lambda>r. ID (rProduct r)) ` S"
      by (simp add: best_inv_dom [OF assms])
    finally show "k \<in> fst ` set best \<longleftrightarrow> k \<in> (\<lambda>r. ID (rProduct r)) ` S" .
  qed
  ultimately show ?thesis by (simp add: image_image)
qed

lemma merged_covers:
  assumes "r \<in> set (concat ls)"
  shows "\<exists>r' \<in> set (flatten_sort 0 (merge_all ls)).
           ID (rProduct r') = ID (rProduct r) \<and> rScore r \<le> rScore r'"
proof -
  have inv: "best_inv (merge_all ls) (set (concat ls))" by (rule best_inv_merge_all)
  have "ID (rProduct r) \<in> (\<lambda>r. ID (rProduct r)) ` set (map snd (merge_all ls))"
    using best_inv_key_set [OF inv] assms by blast
  then obtain k r' where kv: "(k, r') \<in> set (merge_all ls)" and key: "ID (rProduct r') = ID (rProduct r)"
    by auto
  from best_inv_in_set(1) [OF inv kv] best_inv_in_set(3) [OF inv kv assms] key
  have "rScore r \<le> rScore r'" by simp
  moreover have "r' \<in> set (flatten_sort 0 (merge_all ls))"
    using kv by (force simp: flatten_sort_def truncate_topK_def set_sort_Slice)
  ultimately show ?thesis using key by blast
qed

section \<open>Lemmas on the handler\<close>

lemma search_variant_eq:
  "search_variant em jw topK (best, ix, reqs) v =
     ((case fst (Search em jw ix reqs v topK) of Inl err \<Rightarrow> best | Inr res \<Rightarrow> merge res best),
      ix, reqs @ (if TrimSpace v = [] then [] else [TrimSpace v]))"
proof -
  obtain res ix' reqs' where S: "Search em jw ix reqs v topK = (res, ix', reqs')"
    by (cases "Search em jw ix reqs v topK") auto
  with Search_ix [of em jw ix reqs v topK] Search_log [of em jw ix reqs v topK]
  have "ix' = ix" "reqs' = reqs @ (if TrimSpace v = [] then [] else [TrimSpace v])"
    by simp_all
  with S show ?thesis by (simp add: search_variant_def split: sum.splits)
qed

lemma variant_outcomes_Cons:
  "variant_outcomes em jw ix topK reqs (v # vs) =
     fst (Search em jw ix reqs v topK) #
     variant_outcomes em jw ix topK (reqs @ (if TrimSpace v = [] then [] else [TrimSpace v])) vs"
proof -
  obtain res ix' reqs' where S: "Search em jw ix reqs v topK = (res, ix', reqs')"
    by (cases "Search em jw ix reqs v topK") auto
  with Search_ix [of em jw ix reqs v topK] Search_log [of em jw ix reqs v topK]
  have "ix' = ix" "reqs' = reqs @ (if TrimSpace v = [] then [] else [TrimSpace v])"
    by simp_all
  with S show ?thesis by simp
qed

lemma length_variant_outcomes: "length (variant_outcomes em jw ix topK reqs vs) = length vs"
  by (induction vs arbitrary: reqs) (simp_all add: variant_outcomes_Cons del: variant_outcomes.simps(2))

lemma foldl_search_variant:
  "foldl (search_variant em jw topK) (best, ix, reqs) vs =
     (foldl (\<lambda>best l. merge l best) best (successes (variant_outcomes em jw ix topK reqs vs)),
      ix, reqs @ filter (\<lambda>t. t \<noteq> []) (map TrimSpace vs))"
proof (induction vs arbitrary: best reqs)
  case Nil
  then show ?case by simp
next
  case (Cons v vs)
  show ?case
  proof (cases "fst (Search em jw ix reqs v topK)")
    case (Inl err)
    then show ?thesis
      by (simp add: search_variant_eq variant_outcomes_Cons Cons.IH del: variant_outcomes.simps(2))
  next
    case (Inr res)
    then show ?thesis
      by (simp add: search_variant_eq variant_outcomes_Cons Cons.IH del: variant_outcomes.simps(2))
  qed
qed

lemma search_handler_eq:
  "search_handler rewriter em jw ix reqs q topK =
     (let rw = (case rewriter q of
                  Inl err \<Rightarrow> \<lparr>Primary = q, Alternatives = []\<rparr>
                | Inr rw \<Rightarrow> rw);
          vs = Primary rw # Alternatives rw
      in (flatten_sort topK (merge_all (successes (variant_outcomes em jw ix topK reqs vs))),
          rw, ix, reqs @ filter (\<lambda>t. t \<noteq> []) (map TrimSpace vs)))"
proof -
  define rw where "rw = (case rewriter q of
                  Inl err \<Rightarrow> \<lparr>Primary = q, Alternatives = []\<rparr>
                | Inr rw \<Rightarrow> rw)"
  have "foldl (search_variant em jw topK)
          (search_variant em jw topK ([], ix, reqs) (Primary rw)) (Alternatives rw) =
        foldl (search_variant em jw topK) ([], ix, reqs) (Primary rw # Alternatives rw)"
    by simp
  also have "\<dots> =
     (merge_all (successes (variant_outcomes em jw ix topK reqs (Primary rw # Alternatives rw))),
      ix, reqs @ filter (\<lambda>t. t \<noteq> []) (map TrimSpace (Primary rw # Alternatives rw)))"
    unfolding foldl_search_variant merge_all_def ..
  finally show ?thesis
    unfolding search_handler_def Let_def rw_def [symmetric] by simp
qed

section \<open>The examples evaluated\<close>

lemmas ex_string_defs = TrimSpace_def isSpace_def ToLower_def toLowerChar_def

lemma joined_ok: "joined_text (ex_product 2 ''ok'') = ''ok''"
  by (simp add: joined_text_def ex_product_def TrimSpace_def isSpace_def)

lemma joined_bad: "joined_text (ex_product 3 ''bad'') = ''bad''"
  by (simp add: joined_text_def ex_product_def TrimSpace_def isSpace_def)

lemma joined_blank: "joined_text (ex_product 4 '' '') = []"
  by (simp add: joined_text_def ex_product_def TrimSpace_def isSpace_def)

lemma TrimSpace_ok: "TrimSpace ''ok'' = ''ok''"
  by (simp add: TrimSpace_def isSpace_def)

lemma TrimSpace_Nil: "TrimSpace [] = []"
  by (simp add: TrimSpace_def)

lemma TrimSpace_blank: "TrimSpace '' '' = []"
  by (simp add: TrimSpace_def isSpace_def)

lemma ToLower_ok: "ToLower ''ok'' = ''ok''"
  by (simp add: ToLower_def toLowerChar_def)

lemma cosine_unit: "cosine [1, 0] [1, 0] = 1"
  by (simp add: cosine_def)

lemma cosine_orth: "cosine [1, 0] [0, 1] = 0"
  by (simp add: cosine_def)

lemma ex_Rebuild_fail:
  "Rebuild ex_em ex_index [] [ex_product 2 ''ok'', ex_product 3 ''bad''] =
     (Some (EmbedProduct 3 ''down''), ex_index, [] @ [''ok'', ''bad''])"
  using joined_ok joined_bad
  by (simp add: Rebuild_def joined_text_def EmbedContent_def ex_em_def Let_def)
     (simp add: ex_product_def)

lemma ex_Rebuild_fail2:
  "Rebuild ex_em ex_index2 [] [ex_product 4 '' '', ex_product 3 ''bad''] =
     (Some (EmbedProduct 3 ''down''), ex_index2, [''bad''])"
  using joined_blank joined_bad
  by (simp add: Rebuild_def joined_text_def EmbedContent_def ex_em_def Let_def)
     (simp add: ex_product_def)

lemma ex_Rebuild_ok:
  "Rebuild ex_em ex_index [] [ex_product 2 ''ok'', ex_product 4 '' ''] =
     (None, ex_rebuilt, [''ok''])"
  using joined_ok joined_blank
  by (simp add: Rebuild_def joined_text_def EmbedContent_def ex_em_def Let_def
      ex_rebuilt_def ex_index_def)

lemma ex_Search_ok:
  "Search ex_em ex_jw ex_rebuilt [''ok''] ''ok'' 0 =
     (Inr [\<lparr>rProduct = ex_product 2 ''ok'', rScore = 1, WhySemantic = 1, WhyFuzzy = 1\<rparr>],
      ex_rebuilt, [''ok'', ''ok''])"
  by (simp add: Search_def TrimSpace_ok TrimSpace_Nil ToLower_ok EmbedContent_def ex_em_def Let_def
      ex_rebuilt_def cosine_unit jaroWinkler_def ex_jw_def max3_def sort_Slice_def
      truncate_topK_def ex_product_def ToLower_def)

lemma ex_Search_bad:
  "Search ex_em ex_jw ex_index [] ''bad'' 5 = (Inl (EmbedQuery ''down''), ex_index, [''bad''])"
  by (simp add: Search_def EmbedContent_def ex_em_def ex_string_defs)

lemma ex_Search_ok2:
  "Search ex_em ex_jw ex_index [''bad''] ''ok'' 5 =
     (Inr [ex_hit 1 ''tv'' (7 / 10) 1 0], ex_index, [''bad'', ''ok''])"
  by (simp add: Search_def EmbedContent_def ex_em_def ex_string_defs Let_def ex_index_def
      cosine_unit jaroWinkler_def ex_jw_def max3_def sort_Slice_def truncate_topK_def
      ex_product_def ex_hit_def)

lemma ex_Search_x:
  "Search ex_em ex_jw ex_index [] ''x'' 5 =
     (Inr [ex_hit 1 ''tv'' (7 / 10) 1 0], ex_index, [''x''])"
  by (simp add: Search_def EmbedContent_def ex_em_def ex_string_defs Let_def ex_index_def
      cosine_unit jaroWinkler_def ex_jw_def max3_def sort_Slice_def truncate_topK_def
      ex_product_def ex_hit_def)


lemma ex_Search_all:
  "Search ex_em ex_jw ex_index2 [] ''ok'' 0 =
     (Inr [ex_hit 1 ''tv'' (7 / 10) 1 0, ex_hit 2 ''ok'' (3 / 10) 0 1], ex_index2, [''ok''])"
  by (simp add: Search_def EmbedContent_def ex_em_def ex_string_defs Let_def ex_index2_def
      cosine_unit cosine_orth jaroWinkler_def ex_jw_def max3_def sort_Slice_def truncate_topK_def
      ex_product_def ex_hit_def)


lemma ex_handler_x:
  "search_handler ex_rewriter ex_em ex_jw ex_index [] ''x'' 5 =
     ([ex_hit 1 ''tv'' (7 / 10) 1 0], \<lparr>Primary = ''x'', Alternatives = []\<rparr>, ex_index, [''x''])"
  by (simp add: search_handler_def ex_rewriter_def search_variant_def ex_Search_x
      flatten_sort_def sort_Slice_def truncate_topK_def ex_hit_def)

lemma ex_handler_q:
  "search_handler ex_rewriter ex_em ex_jw ex_index [] ''q'' 5 =
     ([ex_hit 1 ''tv'' (7 / 10) 1 0], \<lparr>Primary = ''bad'', Alternatives = [''ok'']\<rparr>, ex_index,
      [''bad'', ''ok''])"
  by (simp add: search_handler_def ex_rewriter_def search_variant_def ex_Search_bad ex_Search_ok2
      flatten_sort_def sort_Slice_def truncate_topK_def ex_hit_def)

lemma ex_outcomes_q:
  "variant_outcomes ex_em ex_jw ex_index 5 [] [''bad'', ''ok''] =
     [Inl (EmbedQuery ''down''), Inr [ex_hit 1 ''tv'' (7 / 10) 1 0]]"
  by (simp add: ex_Search_bad ex_Search_ok2)




section \<open>The float examples evaluated\<close>































section \<open>The claims\<close>




text \<open>
  C2. If an embedding request made by \<open>Rebuild\<close> fails (\<open>new\<close> are the requests the call
  makes, and not all of them succeed), then \<open>Rebuild\<close> returns an error that carries the
  id of the product whose request failed, that request is the last one made, and the
  index, hence its corpus with every item, embedding and search text in the same
  order, is the one before the call.
\<close>

theorem Rebuild_failure_keeps_corpus:
  assumes "Rebuild em ix reqs products = (r, ix', reqs @ new)"
    and "\<not> all_succeed em reqs new"
  shows "ix' = ix \<and> docs ix' = docs ix \<and>
    (\<exists>pre p post msg. products = pre @ p # post \<and> r = Some (EmbedProduct (ID p) msg) \<and>
       new = map joined_text (surviving pre) @ [joined_text p] \<and>
       em (reqs @ map joined_text (surviving pre)) (joined_text p) = Inl msg)"
proof -
  from Rebuild_cases [of em products reqs ix] show ?thesis
  proof (elim disjE exE conjE)
    fix ds
    assume l: "Rebuild_loop em products [] reqs = (Inr ds, reqs @ map joined_text (surviving products))"
      and "Rebuild em ix reqs products = (None, ix\<lparr>docs := ds\<rparr>, reqs @ map joined_text (surviving products))"
    with assms(1) have "new = map joined_text (surviving products)" by simp
    with Rebuild_loop_success [OF l] assms(2) show ?thesis by simp
  next
    fix e reqs'
    assume l: "Rebuild_loop em products [] reqs = (Inl e, reqs')"
      and R: "Rebuild em ix reqs products = (Some e, ix, reqs')"
    from Rebuild_loop_failure [OF l] obtain pre p post msg where
      h: "products = pre @ p # post" "e = EmbedProduct (ID p) msg"
         "reqs' = reqs @ map joined_text (surviving pre) @ [joined_text p]"
         "em (reqs @ map joined_text (surviving pre)) (joined_text p) = Inl msg"
      by blast
    from R assms(1) h(3) have "ix' = ix" "r = Some e"
      "new = map joined_text (surviving pre) @ [joined_text p]" by simp_all
    with h show ?thesis by blast
  qed
qed

theorem Rebuild_failure_keeps_corpus_witness:
  "Rebuild ex_em ex_index [] [ex_product 2 ''ok'', ex_product 3 ''bad''] =
     (Some (EmbedProduct 3 ''down''), ex_index, [] @ [''ok'', ''bad'']) \<and>
   \<not> all_succeed ex_em [] [''ok'', ''bad''] \<and>
   (\<exists>pre p post msg.
      [ex_product 2 ''ok'', ex_product 3 ''bad''] = pre @ p # post \<and>
      Some (EmbedProduct 3 ''down'') = Some (EmbedProduct (ID p) msg) \<and>
      [''ok'', ''bad''] = map joined_text (surviving pre) @ [joined_text p] \<and>
      ex_em ([] @ map joined_text (surviving pre)) (joined_text p) = Inl msg)"
proof -
  have h2: "\<not> all_succeed ex_em [] [''ok'', ''bad'']" by (simp add: ex_em_def)
  from Rebuild_failure_keeps_corpus [OF ex_Rebuild_fail h2] ex_Rebuild_fail h2
  show ?thesis by blast
qed

text \<open>
  C3. For a query that trims to a non-empty string \<open>q\<close>, when \<open>Search\<close> returns the
  results \<open>rs\<close>: the query was embedded to some \<open>qVec\<close>; the results are among the Scored
  Results of the documents of the corpus, and are all of them when the limit does not
  truncate; and every result is that of a document \<open>d\<close>, with the semantic sub-score
  \<open>cosine qVec d.Embedding\<close>, the fuzzy sub-score the maximum of the similarities of \<open>q\<close>
  to the title, the brand and the description, and the combined score
  \<open>semanticWeight * semantic + fuzzyWeight * fuzzy\<close> of the two sub-scores recorded.
\<close>

theorem Search_scores:
  assumes "TrimSpace query \<noteq> []"
    and "Search em jw ix reqs query topK = (Inr rs, ix', reqs')"
  shows "\<exists>qVec. em reqs (TrimSpace query) = Inr qVec \<and>
     mset rs \<subseteq># mset (map (spec_scored jw ix (TrimSpace query) qVec) (docs ix)) \<and>
     (topK \<le> 0 \<or> int (length (docs ix)) \<le> topK \<longrightarrow>
        mset rs = mset (map (spec_scored jw ix (TrimSpace query) qVec) (docs ix))) \<and>
     (\<forall>r \<in> set rs. \<exists>d \<in> set (docs ix).
        rProduct r = P d \<and>
        WhySemantic r = cosine qVec (Embedding d) \<and>
        WhyFuzzy r = Max {jaroWinkler jw (TrimSpace query) (Title (P d)),
                          jaroWinkler jw (TrimSpace query) (Brand (P d)),
                          jaroWinkler jw (TrimSpace query) (Description (P d))} \<and>
        rScore r = semanticWeight ix * WhySemantic r + fuzzyWeight ix * WhyFuzzy r)"
proof -
  from Search_cases [of query em jw ix reqs topK] assms obtain qVec where
    e: "em reqs (TrimSpace query) = Inr qVec" and
    rs: "rs = truncate_topK topK (sort_Slice (\<lambda>a b. rScore a > rScore b)
                (map (spec_scored jw ix (TrimSpace query) qVec) (docs ix)))"
    by auto
  let ?scored = "map (spec_scored jw ix (TrimSpace query) qVec) (docs ix)"
  let ?sorted = "sort_Slice (\<lambda>a b. rScore a > rScore b) ?scored"
  have sub: "mset rs \<subseteq># mset ?scored"
    using mset_truncate_topK [of topK ?sorted] by (simp add: rs mset_sort_Slice)
  have full: "mset rs = mset ?scored" if "topK \<le> 0 \<or> int (length (docs ix)) \<le> topK"
  proof -
    have "truncate_topK topK ?sorted = ?sorted"
      using that by (auto simp: truncate_topK_def length_sort_Slice)
    then show ?thesis by (simp add: rs mset_sort_Slice)
  qed
  have each: "\<exists>d \<in> set (docs ix).
        rProduct r = P d \<and>
        WhySemantic r = cosine qVec (Embedding d) \<and>
        WhyFuzzy r = Max {jaroWinkler jw (TrimSpace query) (Title (P d)),
                          jaroWinkler jw (TrimSpace query) (Brand (P d)),
                          jaroWinkler jw (TrimSpace query) (Description (P d))} \<and>
        rScore r = semanticWeight ix * WhySemantic r + fuzzyWeight ix * WhyFuzzy r"
    if "r \<in> set rs" for r
  proof -
    from that sub have "r \<in> set ?scored" by (meson mset_subset_eqD in_multiset_in_set)
    then obtain d where "d \<in> set (docs ix)" "r = spec_scored jw ix (TrimSpace query) qVec d"
      by auto
    then show ?thesis by (auto simp: spec_scored_def spec_fuzzy_def)
  qed
  from e sub full each show ?thesis by blast
qed

theorem Search_scores_witness:
  "TrimSpace ''ok'' \<noteq> [] \<and>
   Search ex_em ex_jw ex_index2 [] ''ok'' 0 =
     (Inr [ex_hit 1 ''tv'' (7 / 10) 1 0, ex_hit 2 ''ok'' (3 / 10) 0 1], ex_index2, [''ok'']) \<and>
   (\<exists>qVec. ex_em [] (TrimSpace ''ok'') = Inr qVec \<and>
      mset [ex_hit 1 ''tv'' (7 / 10) 1 0, ex_hit 2 ''ok'' (3 / 10) 0 1] =
      mset (map (spec_scored ex_jw ex_index2 (TrimSpace ''ok'') qVec) (docs ex_index2)))"
proof -
  have h: "TrimSpace ''ok'' \<noteq> []" by (simp add: TrimSpace_def isSpace_def)
  from Search_scores [OF h ex_Search_all] h ex_Search_all show ?thesis by blast
qed



text \<open>
  C6 (amended). Let \<open>p\<close> be an input item whose search text (title, brand and
  description joined by spaces, trimmed) is empty. Whatever the outcome, \<open>Rebuild\<close>
  requests no embedding for the empty text and makes fewer requests than there are
  input items. When \<open>Rebuild\<close> succeeds, \<open>p\<close> is not in the corpus, the corpus is the
  surviving items in input order, one embedding request was made per document of the
  corpus (for its search text), the corpus is strictly smaller than the input, and no
  later \<open>Search\<close> on that corpus returns \<open>p\<close>.
\<close>

theorem Rebuild_skips_empty_text:
  assumes "p \<in> set products" and "joined_text p = []"
    and "Rebuild em ix reqs products = (r, ix', reqs')"
  shows "(\<exists>new. reqs' = reqs @ new \<and> [] \<notin> set new \<and> length new < length products) \<and>
    (r = None \<longrightarrow>
       p \<notin> P ` set (docs ix') \<and>
       map P (docs ix') = filter (\<lambda>p. joined_text p \<noteq> []) products \<and>
       reqs' = reqs @ map SearchText (docs ix') \<and>
       length (docs ix') < length products \<and>
       (\<forall>em2 jw reqs2 query topK rs ix2 reqs3.
          Search em2 jw ix' reqs2 query topK = (Inr rs, ix2, reqs3) \<longrightarrow>
            p \<notin> rProduct ` set rs))"
proof (intro conjI impI)
  from Rebuild_requests [OF assms(3)] obtain new where
    n: "reqs' = reqs @ new" "[] \<notin> set new" "length new \<le> length (surviving products)"
    by blast
  from n(3) surviving_length_less [OF assms(1,2)] have "length new < length products"
    by simp
  with n(1,2)
  show "\<exists>new. reqs' = reqs @ new \<and> [] \<notin> set new \<and> length new < length products"
    by blast
next
  assume "r = None"
  with assms(3) have R: "Rebuild em ix reqs products = (None, ix', reqs')" by simp
  note s = Rebuild_success [OF R]
  have "p \<notin> set (surviving products)" using assms(2) by (simp add: surviving_def)
  then have "p \<notin> set (map P (docs ix'))" using s(1) by simp
  then show notin: "p \<notin> P ` set (docs ix')" by simp
  show "map P (docs ix') = filter (\<lambda>p. joined_text p \<noteq> []) products"
    using s(1) by (simp add: surviving_def)
  show "reqs' = reqs @ map SearchText (docs ix')" by (rule s(3))
  have "length (docs ix') = length (surviving products)"
    using s(1) by (metis length_map)
  then show "length (docs ix') < length products"
    using surviving_length_less [OF assms(1,2)] by simp
  show "\<forall>em2 jw reqs2 query topK rs ix2 reqs3.
          Search em2 jw ix' reqs2 query topK = (Inr rs, ix2, reqs3) \<longrightarrow>
            p \<notin> rProduct ` set rs"
    using Search_products notin by blast
qed

theorem Rebuild_skips_empty_text_witness:
  "ex_product 4 '' '' \<in> set [ex_product 2 ''ok'', ex_product 4 '' ''] \<and>
   joined_text (ex_product 4 '' '') = [] \<and>
   Rebuild ex_em ex_index [] [ex_product 2 ''ok'', ex_product 4 '' ''] =
     (None, ex_rebuilt, [''ok'']) \<and>
   ex_product 4 '' '' \<notin> P ` set (docs ex_rebuilt) \<and>
   length (docs ex_rebuilt) < length [ex_product 2 ''ok'', ex_product 4 '' ''] \<and>
   [''ok''] = [] @ map SearchText (docs ex_rebuilt) \<and>
   Search ex_em ex_jw ex_rebuilt [''ok''] ''ok'' 0 =
     (Inr [\<lparr>rProduct = ex_product 2 ''ok'', rScore = 1, WhySemantic = 1, WhyFuzzy = 1\<rparr>],
      ex_rebuilt, [''ok'', ''ok'']) \<and>
   ex_product 4 '' '' \<notin>
     rProduct ` set [\<lparr>rProduct = ex_product 2 ''ok'', rScore = 1, WhySemantic = 1, WhyFuzzy = 1\<rparr>]"
proof -
  have h1: "ex_product 4 '' '' \<in> set [ex_product 2 ''ok'', ex_product 4 '' '']" by simp
  from Rebuild_skips_empty_text [OF h1 joined_blank ex_Rebuild_ok] ex_Search_ok
  have "ex_product 4 '' '' \<notin> P ` set (docs ex_rebuilt)"
    "length (docs ex_rebuilt) < length [ex_product 2 ''ok'', ex_product 4 '' '']"
    "[''ok''] = [] @ map SearchText (docs ex_rebuilt)"
    "ex_product 4 '' '' \<notin>
       rProduct ` set [\<lparr>rProduct = ex_product 2 ''ok'', rScore = 1, WhySemantic = 1, WhyFuzzy = 1\<rparr>]"
    by blast+
  with h1 joined_blank ex_Rebuild_ok ex_Search_ok show ?thesis by blast
qed

text \<open>
  C6 as stated fails when \<open>Rebuild\<close> fails: on an index that holds two documents,
  rebuilding from an item with an empty search text and an item whose embedding request
  fails returns an error and keeps the two documents, so the corpus after the call is
  not smaller than the input of two items.
\<close>

theorem Rebuild_failed_corpus_size_counterexample:
  "ex_product 4 '' '' \<in> set [ex_product 4 '' '', ex_product 3 ''bad''] \<and>
   joined_text (ex_product 4 '' '') = [] \<and>
   Rebuild ex_em ex_index2 [] [ex_product 4 '' '', ex_product 3 ''bad''] =
     (Some (EmbedProduct 3 ''down''), ex_index2, [''bad'']) \<and>
   length (docs ex_index2) = 2 \<and>
   \<not> length (docs ex_index2) < length [ex_product 4 '' '', ex_product 3 ''bad'']"
  using joined_blank ex_Rebuild_fail2 by (simp add: ex_index2_def)




text \<open>
  C8. For every limit and every index, \<open>Search\<close> with a query that trims to the empty
  string returns the empty list and no error, and the request log is unchanged: no
  embedding request is made.
\<close>

theorem Search_empty_query:
  "TrimSpace query = [] \<Longrightarrow> Search em jw ix reqs query topK = (Inr [], ix, reqs)"
  by (simp add: Search_def)

theorem Search_empty_query_witness:
  "TrimSpace '' '' = [] \<and> Search ex_em ex_jw ex_index [''ok''] '' '' 5 = (Inr [], ex_index, [''ok''])"
  using Search_empty_query [OF TrimSpace_blank, of ex_em ex_jw ex_index "[''ok'']" 5] TrimSpace_blank
  by simp

text \<open>
  C9. The handler always returns a merged list. A rewriter failure gives the raw query
  as the primary with no alternatives. Every variant is searched, the primary first and
  then the alternatives in order, whether or not an earlier search failed: the outcomes
  are as many as the variants, and the embedding requests are the non-empty trimmed
  variants in that order. The output is the merge of the lists of the searches that
  succeeded, a failed search contributing nothing, and every result of a successful
  search is represented in the merge before truncation by a result of the same id
  with at least its score.
\<close>

theorem search_handler_absorbs_failures:
  assumes "search_handler rewriter em jw ix reqs q topK = (out, rw, ix', reqs')"
  shows "(\<forall>e. rewriter q = Inl e \<longrightarrow> rw = \<lparr>Primary = q, Alternatives = []\<rparr>) \<and>
     (\<forall>r. rewriter q = Inr r \<longrightarrow> rw = r) \<and>
     length (variant_outcomes em jw ix topK reqs (Primary rw # Alternatives rw)) =
       length (Primary rw # Alternatives rw) \<and>
     out = flatten_sort topK
             (merge_all (successes (variant_outcomes em jw ix topK reqs (Primary rw # Alternatives rw)))) \<and>
     (\<forall>l \<in> set (successes (variant_outcomes em jw ix topK reqs (Primary rw # Alternatives rw))).
        \<forall>r \<in> set l.
          \<exists>r' \<in> set (flatten_sort 0
                   (merge_all (successes (variant_outcomes em jw ix topK reqs (Primary rw # Alternatives rw))))).
            ID (rProduct r') = ID (rProduct r) \<and> rScore r \<le> rScore r') \<and>
     reqs' = reqs @ filter (\<lambda>t. t \<noteq> []) (map TrimSpace (Primary rw # Alternatives rw)) \<and>
     ix' = ix"
proof -
  let ?rw = "case rewriter q of Inl err \<Rightarrow> \<lparr>Primary = q, Alternatives = []\<rparr> | Inr rw \<Rightarrow> rw"
  let ?out = "\<lambda>rw. flatten_sort topK
             (merge_all (successes (variant_outcomes em jw ix topK reqs (Primary rw # Alternatives rw))))"
  let ?reqs = "\<lambda>rw. reqs @ filter (\<lambda>t. t \<noteq> []) (map TrimSpace (Primary rw # Alternatives rw))"
  have "search_handler rewriter em jw ix reqs q topK = (?out ?rw, ?rw, ix, ?reqs ?rw)"
    unfolding search_handler_eq Let_def ..
  with assms have "(?out ?rw, ?rw, ix, ?reqs ?rw) = (out, rw, ix', reqs')" by (simp only:)
  then have rw: "?rw = rw" and o: "?out ?rw = out" and ix: "ix' = ix" and r: "?reqs ?rw = reqs'"
    by blast+
  from o have out: "out = ?out rw" unfolding rw by (rule sym)
  from r have reqs: "reqs' = ?reqs rw" unfolding rw by (rule sym)
  have cover: "\<forall>l \<in> set ls. \<forall>r \<in> set l.
          \<exists>r' \<in> set (flatten_sort 0 (merge_all ls)).
            ID (rProduct r') = ID (rProduct r) \<and> rScore r \<le> rScore r'" for ls
    using merged_covers [of _ ls] by auto
  from rw have "\<forall>e. rewriter q = Inl e \<longrightarrow> rw = \<lparr>Primary = q, Alternatives = []\<rparr>"
    and "\<forall>r. rewriter q = Inr r \<longrightarrow> rw = r"
    by auto
  with out reqs ix cover length_variant_outcomes [of em jw ix topK reqs "Primary rw # Alternatives rw"]
  show ?thesis by blast
qed

theorem search_handler_absorbs_failures_witness:
  "ex_rewriter ''x'' = Inl ''down'' \<and>
   search_handler ex_rewriter ex_em ex_jw ex_index [] ''x'' 5 =
     ([ex_hit 1 ''tv'' (7 / 10) 1 0], \<lparr>Primary = ''x'', Alternatives = []\<rparr>, ex_index, [''x'']) \<and>
   search_handler ex_rewriter ex_em ex_jw ex_index [] ''q'' 5 =
     ([ex_hit 1 ''tv'' (7 / 10) 1 0], \<lparr>Primary = ''bad'', Alternatives = [''ok'']\<rparr>, ex_index,
      [''bad'', ''ok'']) \<and>
   variant_outcomes ex_em ex_jw ex_index 5 [] [''bad'', ''ok''] =
     [Inl (EmbedQuery ''down''), Inr [ex_hit 1 ''tv'' (7 / 10) 1 0]] \<and>
   [ex_hit 1 ''tv'' (7 / 10) 1 0] =
     flatten_sort 5 (merge_all (successes (variant_outcomes ex_em ex_jw ex_index 5 []
        (Primary \<lparr>Primary = ''bad'', Alternatives = [''ok'']\<rparr> #
         Alternatives \<lparr>Primary = ''bad'', Alternatives = [''ok'']\<rparr>)))) \<and>
   [''bad'', ''ok''] = [] @ filter (\<lambda>t. t \<noteq> []) (map TrimSpace
        (Primary \<lparr>Primary = ''bad'', Alternatives = [''ok'']\<rparr> #
         Alternatives \<lparr>Primary = ''bad'', Alternatives = [''ok'']\<rparr>))"
proof -
  have r: "ex_rewriter ''x'' = Inl ''down''" by (simp add: ex_rewriter_def)
  from search_handler_absorbs_failures [OF ex_handler_x] r
  have "\<lparr>Primary = ''x'', Alternatives = []\<rparr> = \<lparr>Primary = ''x'', Alternatives = []\<rparr>" by blast
  from search_handler_absorbs_failures [OF ex_handler_q]
  have "[ex_hit 1 ''tv'' (7 / 10) 1 0] =
     flatten_sort 5 (merge_all (successes (variant_outcomes ex_em ex_jw ex_index 5 []
        (Primary \<lparr>Primary = ''bad'', Alternatives = [''ok'']\<rparr> #
         Alternatives \<lparr>Primary = ''bad'', Alternatives = [''ok'']\<rparr>))))"
    and "[''bad'', ''ok''] = [] @ filter (\<lambda>t. t \<noteq> []) (map TrimSpace
        (Primary \<lparr>Primary = ''bad'', Alternatives = [''ok'']\<rparr> #
         Alternatives \<lparr>Primary = ''bad'', Alternatives = [''ok'']\<rparr>))"
    by blast+
  with r ex_handler_x ex_handler_q ex_outcomes_q show ?thesis by blast
qed

text \<open>
  C10. \<open>Search\<close> never changes the index: after any call, whether it returns results or
  an error, the index is the one before the call, so the corpus (every item, embedding
  and search text) and both weights are unchanged.
\<close>

theorem Search_frame:
  "fst (snd (Search em jw ix reqs query topK)) = ix \<and>
   docs (fst (snd (Search em jw ix reqs query topK))) = docs ix \<and>
   semanticWeight (fst (snd (Search em jw ix reqs query topK))) = semanticWeight ix \<and>
   fuzzyWeight (fst (snd (Search em jw ix reqs query topK))) = fuzzyWeight ix"
proof -
  have "fst (snd (Search em jw ix reqs query topK)) = ix"
    using Search_cases [of query em jw ix reqs topK] by auto
  then show ?thesis by simp
qed

end
